theory Spec2Isabelle
  imports Complex_Main "HOL-Library.Word"
begin

section \<open>Data types and object system\<close>

text \<open>
  Heap objects live in a store that maps addresses to objects. A \<open>GCObject*\<close> is an
  address; address 0 is the null pointer. The payload of a \<open>NumberObj\<close> is a C++
  \<open>double\<close>: its type is the parameter \<open>'d\<close>, and the only operation the machine
  applies to it is addition (\<open>+\<close> of the class \<open>plus\<close>); the assembler also
  writes the literal \<open>0.0\<close> (\<open>0\<close> of the class \<open>zero\<close>). Concrete runs take
  \<open>real\<close> for it.
\<close>

type_synonym addr = nat

definition nullptr :: addr where
  "nullptr = 0"

datatype 'd ObjBody = NumberObj 'd | StringObj string

record 'd GCObject =
  marked :: bool
  body :: "'d ObjBody"

type_synonym 'd heap = "addr \<Rightarrow> 'd GCObject option"

text \<open>
  What the run can end with other than a result: the \<open>std::runtime_error\<close> thrown by
  \<open>pop\<close>, the \<open>std::bad_variant_access\<close> thrown by \<open>std::get\<close>, and undefined
  behaviour (a null or dangling pointer read, a \<open>static_cast\<close> to the wrong class,
  signed overflow of \<open>ip\<close>).
\<close>

datatype error = StackUnderflow | BadVariantAccess | UndefinedBehaviour

text \<open>Reading through a pointer: \<open>None\<close> for the null pointer and for a freed address.\<close>

definition deref :: "'d heap \<Rightarrow> addr \<Rightarrow> 'd GCObject option" where
  "deref h p = (if p = nullptr then None else h p)"

section \<open>Instruction set\<close>

datatype OpCode =
  OP_PUSH_NUM | OP_PUSH_STR | OP_ADD | OP_SUB | OP_MUL | OP_DIV
  | OP_PRINT | OP_JUMP | OP_JUMP_IF_FALSE | OP_HALT

text \<open>\<open>std::variant<double, std::string, int>\<close>.\<close>

datatype 'd Operand = AltDouble 'd | AltString string | AltInt "32 word"

record 'd Instruction =
  code :: OpCode
  operand :: "'d Operand"

definition get_double :: "'d Operand \<Rightarrow> error + 'd" where
  "get_double v = (case v of AltDouble x \<Rightarrow> Inr x | _ \<Rightarrow> Inl BadVariantAccess)"

definition get_string :: "'d Operand \<Rightarrow> error + string" where
  "get_string v = (case v of AltString x \<Rightarrow> Inr x | _ \<Rightarrow> Inl BadVariantAccess)"

text \<open>What the machine writes to \<open>std::cout\<close>, one entry per line.\<close>

datatype 'd Output = ExecutionStarted | Printed "'d ObjBody" | VMHalted | CycleFinished

section \<open>Garbage collector\<close>

record GarbageCollector =
  objects :: "addr list"

definition track :: "addr \<Rightarrow> GarbageCollector \<Rightarrow> GarbageCollector" where
  "track obj g = g\<lparr>objects := objects g @ [obj]\<rparr>"

text \<open>The mark loop over \<open>roots\<close>: a non-null root gets its mark bit set.\<close>

fun mark_phase :: "addr list \<Rightarrow> 'd heap \<Rightarrow> error + 'd heap" where
  "mark_phase [] h = Inr h"
| "mark_phase (r # roots) h =
     (if r \<noteq> nullptr then
        (case h r of
           None \<Rightarrow> Inl UndefinedBehaviour
         | Some obj \<Rightarrow> mark_phase roots (h(r \<mapsto> obj\<lparr>marked := True\<rparr>)))
      else mark_phase roots h)"

text \<open>
  The sweep loop. The first argument is the part of \<open>objects\<close> from the iterator
  \<open>it\<close> to the end; the result is what is left of that part, and the store. An
  unmarked object is deleted and erased from the vector; a marked one is reset and kept.
\<close>

fun sweep_phase :: "addr list \<Rightarrow> 'd heap \<Rightarrow> error + (addr list \<times> 'd heap)" where
  "sweep_phase [] h = Inr ([], h)"
| "sweep_phase (p # rest) h =
     (case deref h p of
        None \<Rightarrow> Inl UndefinedBehaviour
      | Some obj \<Rightarrow>
          if \<not> marked obj then sweep_phase rest (h(p := None))
          else (case sweep_phase rest (h(p \<mapsto> obj\<lparr>marked := False\<rparr>)) of
                  Inl e \<Rightarrow> Inl e
                | Inr (kept, h') \<Rightarrow> Inr (p # kept, h')))"

text \<open>
  \<open>collect\<close> receives \<open>roots\<close> by reference, so the vector is among what it hands
  back, next to the collector, the store and the output.
\<close>

definition collect ::
  "addr list \<Rightarrow> GarbageCollector \<Rightarrow> 'd heap \<Rightarrow> 'd Output list
     \<Rightarrow> error + (addr list \<times> GarbageCollector \<times> 'd heap \<times> 'd Output list)" where
  "collect roots g h cout =
     (case mark_phase roots h of
        Inl e \<Rightarrow> Inl e
      | Inr h1 \<Rightarrow>
          (case sweep_phase (objects g) h1 of
             Inl e \<Rightarrow> Inl e
           | Inr (kept, h2) \<Rightarrow>
               Inr (roots, g\<lparr>objects := kept\<rparr>, h2, cout @ [CycleFinished])))"

section \<open>The virtual machine\<close>

text \<open>
  The members of \<open>KryptonVM\<close> (\<open>bytecode\<close>, \<open>stack\<close>, \<open>gc\<close>, \<open>ip\<close>), and with them
  the free store its objects live in (\<open>heap\<close>, and \<open>brk\<close>, the next address
  \<open>new\<close> hands out) and the standard output (\<open>cout\<close>). \<open>ip\<close> starts at 0 and is
  only ever incremented, so it is a natural number; incrementing it at \<open>INT_MAX\<close> is
  undefined behaviour.
\<close>

record 'd KryptonVM =
  bytecode :: "'d Instruction list"
  stack :: "addr list"
  gc :: GarbageCollector
  ip :: nat
  heap :: "'d heap"
  brk :: addr
  cout :: "'d Output list"

definition INT_MAX :: nat where
  "INT_MAX = 2147483647"

definition KryptonVM_init :: "'d KryptonVM" where
  "KryptonVM_init =
     \<lparr>bytecode = [], stack = [], gc = \<lparr>objects = []\<rparr>, ip = 0,
      heap = (\<lambda>_. None), brk = 1, cout = []\<rparr>"

text \<open>
  \<open>new\<close>: the object is constructed unmarked at \<open>brk\<close>, the first address never
  handed out so far, which is not null. Freed addresses are not handed out again.
\<close>

definition new_obj :: "'d ObjBody \<Rightarrow> 'd KryptonVM \<Rightarrow> addr \<times> 'd KryptonVM" where
  "new_obj b s =
     (brk s, s\<lparr>heap := (heap s)(brk s \<mapsto> \<lparr>marked = False, body = b\<rparr>), brk := Suc (brk s)\<rparr>)"

definition push :: "addr \<Rightarrow> 'd KryptonVM \<Rightarrow> 'd KryptonVM" where
  "push obj s = s\<lparr>stack := stack s @ [obj], gc := track obj (gc s)\<rparr>"

definition pop :: "'d KryptonVM \<Rightarrow> error + (addr \<times> 'd KryptonVM)" where
  "pop s =
     (if stack s = [] then Inl StackUnderflow
      else Inr (last (stack s), s\<lparr>stack := butlast (stack s)\<rparr>))"

definition loadProgram :: "'d Instruction list \<Rightarrow> 'd KryptonVM \<Rightarrow> 'd KryptonVM" where
  "loadProgram program s = s\<lparr>bytecode := program\<rparr>"

text \<open>
  \<open>static_cast<NumberObj*>\<close>: a null pointer stays null; any other pointer must be
  to a live \<open>NumberObj\<close>, else the cast is undefined.
\<close>

definition static_cast_NumberObj :: "'d heap \<Rightarrow> addr \<Rightarrow> error + addr" where
  "static_cast_NumberObj h p =
     (if p = nullptr then Inr p
      else (case h p of
              None \<Rightarrow> Inl UndefinedBehaviour
            | Some obj \<Rightarrow>
                (case body obj of
                   NumberObj _ \<Rightarrow> Inr p
                 | StringObj _ \<Rightarrow> Inl UndefinedBehaviour)))"

text \<open>The read \<open>p->value\<close> through a \<open>NumberObj*\<close>.\<close>

definition number_value :: "'d heap \<Rightarrow> addr \<Rightarrow> error + 'd" where
  "number_value h p =
     (case deref h p of
        None \<Rightarrow> Inl UndefinedBehaviour
      | Some obj \<Rightarrow>
          (case body obj of NumberObj v \<Rightarrow> Inr v | StringObj _ \<Rightarrow> Inl UndefinedBehaviour))"

text \<open>One pass through the loop body ends in the next iteration or in \<open>return\<close>.\<close>

datatype 'd Flow = Next "'d KryptonVM" | Return "'d KryptonVM"

text \<open>The \<open>switch\<close> on the opcode.\<close>

definition exec_instr :: "'d::plus Instruction \<Rightarrow> 'd KryptonVM \<Rightarrow> error + 'd Flow" where
  "exec_instr inst s =
     (case code inst of
        OP_PUSH_NUM \<Rightarrow>
          (case get_double (operand inst) of
             Inl e \<Rightarrow> Inl e
           | Inr v \<Rightarrow> (case new_obj (NumberObj v) s of (p, s1) \<Rightarrow> Inr (Next (push p s1))))
      | OP_PUSH_STR \<Rightarrow>
          (case get_string (operand inst) of
             Inl e \<Rightarrow> Inl e
           | Inr v \<Rightarrow> (case new_obj (StringObj v) s of (p, s1) \<Rightarrow> Inr (Next (push p s1))))
      | OP_ADD \<Rightarrow>
          (case pop s of
             Inl e \<Rightarrow> Inl e
           | Inr (b0, s1) \<Rightarrow>
          (case static_cast_NumberObj (heap s1) b0 of
             Inl e \<Rightarrow> Inl e
           | Inr b \<Rightarrow>
          (case pop s1 of
             Inl e \<Rightarrow> Inl e
           | Inr (a0, s2) \<Rightarrow>
          (case static_cast_NumberObj (heap s2) a0 of
             Inl e \<Rightarrow> Inl e
           | Inr a \<Rightarrow>
          (case number_value (heap s2) a of
             Inl e \<Rightarrow> Inl e
           | Inr av \<Rightarrow>
          (case number_value (heap s2) b of
             Inl e \<Rightarrow> Inl e
           | Inr bv \<Rightarrow>
          (case new_obj (NumberObj (av + bv)) s2 of
             (p, s3) \<Rightarrow> Inr (Next (push p s3)))))))))
      | OP_PRINT \<Rightarrow>
          (case pop s of
             Inl e \<Rightarrow> Inl e
           | Inr (obj, s1) \<Rightarrow>
               (case deref (heap s1) obj of
                  None \<Rightarrow> Inl UndefinedBehaviour
                | Some v \<Rightarrow> Inr (Next (s1\<lparr>cout := cout s1 @ [Printed (body v)]\<rparr>))))
      | OP_HALT \<Rightarrow> Inr (Return (s\<lparr>cout := cout s @ [VMHalted]\<rparr>))
      | _ \<Rightarrow> Inr (Next s))"

text \<open>\<open>gc.collect(stack)\<close>.\<close>

definition gc_collect :: "'d KryptonVM \<Rightarrow> error + 'd KryptonVM" where
  "gc_collect s =
     (case collect (stack s) (gc s) (heap s) (cout s) of
        Inl e \<Rightarrow> Inl e
      | Inr (roots, g, h, out) \<Rightarrow> Inr (s\<lparr>stack := roots, gc := g, heap := h, cout := out\<rparr>))"

text \<open>What follows the \<open>switch\<close>: \<open>ip++\<close>, then the periodic collection.\<close>

definition advance :: "'d KryptonVM \<Rightarrow> error + 'd KryptonVM" where
  "advance s =
     (if ip s = INT_MAX then Inl UndefinedBehaviour
      else (let s1 = s\<lparr>ip := ip s + 1\<rparr>
            in if ip s1 mod 5 = 0 then gc_collect s1 else Inr s1))"

text \<open>The loop body, entered with \<open>ip < bytecode.size()\<close>.\<close>

definition step :: "'d::plus KryptonVM \<Rightarrow> error + 'd Flow" where
  "step s =
     (case exec_instr (bytecode s ! ip s) s of
        Inl e \<Rightarrow> Inl e
      | Inr (Return s1) \<Rightarrow> Inr (Return s1)
      | Inr (Next s1) \<Rightarrow> (case advance s1 of Inl e \<Rightarrow> Inl e | Inr s2 \<Rightarrow> Inr (Next s2)))"

text \<open>
  The \<open>while\<close> loop of \<open>run\<close>. It ends because every pass that continues
  leaves the program as it is and moves \<open>ip\<close> one further.
\<close>

function run_loop :: "'d::plus KryptonVM \<Rightarrow> error + 'd KryptonVM" where
  "run_loop s =
     (if ip s < length (bytecode s) then
        (case step s of
           Inl e \<Rightarrow> Inl e
         | Inr (Return s') \<Rightarrow> Inr s'
         | Inr (Next s') \<Rightarrow> run_loop s')
      else Inr s)"
  by pat_completeness auto
termination
proof (relation "measure (\<lambda>s. length (bytecode s) - ip s)")
  show "wf (measure (\<lambda>s. length (bytecode s) - ip s))" by simp
next
  fix s :: "'d::plus KryptonVM" and f s'
  assume guard: "ip s < length (bytecode s)" and st: "step s = Inr f" and f: "f = Next s'"
  from st f obtain s1 where e: "exec_instr (bytecode s ! ip s) s = Inr (Next s1)"
    and a: "advance s1 = Inr s'"
    by (auto simp: step_def split: sum.splits Flow.splits)
  from e have 1: "bytecode s1 = bytecode s \<and> ip s1 = ip s"
    by (auto simp: exec_instr_def new_obj_def push_def pop_def
        split: OpCode.splits sum.splits prod.splits option.splits if_splits)
  from a have 2: "bytecode s' = bytecode s1 \<and> ip s' = Suc (ip s1)"
    by (auto simp: advance_def Let_def gc_collect_def split: if_splits sum.splits prod.splits)
  from guard 1 2 show "(s', s) \<in> measure (\<lambda>s. length (bytecode s) - ip s)"
    by simp
qed

declare run_loop.simps [simp del]

definition run :: "'d::plus KryptonVM \<Rightarrow> error + 'd KryptonVM" where
  "run s = run_loop (s\<lparr>cout := cout s @ [ExecutionStarted]\<rparr>)"

text \<open>
  The first \<open>n\<close> passes of that loop: \<open>Next\<close> when all \<open>n\<close> of them went on to
  the next pass, \<open>Return\<close> when the loop ended before.
\<close>

fun run_passes :: "nat \<Rightarrow> 'd::plus KryptonVM \<Rightarrow> error + 'd Flow" where
  "run_passes 0 s = Inr (Next s)"
| "run_passes (Suc n) s =
     (if ip s < length (bytecode s) then
        (case step s of
           Inl e \<Rightarrow> Inl e
         | Inr (Return s') \<Rightarrow> Inr (Return s')
         | Inr (Next s') \<Rightarrow> run_passes n s')
      else Inr (Return s))"

section \<open>Assembler and the program of main\<close>

definition emit :: "OpCode \<Rightarrow> 'd::zero Instruction list \<Rightarrow> 'd Instruction list" where
  "emit c program = program @ [\<lparr>code = c, operand = AltDouble 0\<rparr>]"

definition emit_double :: "OpCode \<Rightarrow> 'd \<Rightarrow> 'd Instruction list \<Rightarrow> 'd Instruction list" where
  "emit_double c val program = program @ [\<lparr>code = c, operand = AltDouble val\<rparr>]"

definition emit_string :: "OpCode \<Rightarrow> string \<Rightarrow> 'd Instruction list \<Rightarrow> 'd Instruction list" where
  "emit_string c val program = program @ [\<lparr>code = c, operand = AltString val\<rparr>]"

text \<open>The program \<open>main\<close> builds, written for \<open>(10 + 20) * 2\<close>.\<close>

definition main_program :: "real Instruction list" where
  "main_program =
     foldl (\<lambda>program e. e program) []
       [emit_double OP_PUSH_NUM 10,
        emit_double OP_PUSH_NUM 20,
        emit OP_ADD,
        emit_double OP_PUSH_NUM 2,
        emit OP_MUL,
        emit_string OP_PUSH_STR ''Hasil Kalkulasi: '',
        emit OP_PRINT,
        emit OP_PRINT,
        emit OP_HALT]"

section \<open>Well-formed machine states\<close>

text \<open>
  What holds of the machine between any two instructions: every object is tracked once,
  every stack entry is tracked, every tracked object is live, non-null and unmarked, and
  the store is allocated below \<open>brk\<close>. It holds of the machine as constructed, and
  \<open>loadProgram\<close>, every instruction, every collection and \<open>run\<close> keep it.
\<close>

definition vm_inv :: "'d KryptonVM \<Rightarrow> bool" where
  "vm_inv s \<longleftrightarrow>
     distinct (objects (gc s)) \<and>
     set (stack s) \<subseteq> set (objects (gc s)) \<and>
     (\<forall>p \<in> set (objects (gc s)). p \<noteq> nullptr \<and> (\<exists>obj. heap s p = Some obj \<and> \<not> marked obj)) \<and>
     (\<forall>p. heap s p \<noteq> None \<longrightarrow> p < brk s) \<and> 0 < brk s"

text \<open>
  The machine of \<open>main\<close> at its first collection, after five instructions: 10 and 20
  were popped by \<open>ADD\<close> and are garbage, their sum and the 2 are on the stack.
\<close>

definition vm_at_cycle :: "real KryptonVM" where
  "vm_at_cycle =
     \<lparr>bytecode = main_program, stack = [3, 4], gc = \<lparr>objects = [1, 2, 3, 4]\<rparr>, ip = 5,
      heap = (\<lambda>_. None)
        (1 \<mapsto> \<lparr>marked = False, body = NumberObj 10\<rparr>,
         2 \<mapsto> \<lparr>marked = False, body = NumberObj 20\<rparr>,
         3 \<mapsto> \<lparr>marked = False, body = NumberObj 30\<rparr>,
         4 \<mapsto> \<lparr>marked = False, body = NumberObj 2\<rparr>),
      brk = 5, cout = [ExecutionStarted]\<rparr>"

subsection \<open>What an instruction leaves alone\<close>






subsection \<open>What the two phases compute\<close>

lemma mark_phase_eq:
  "\<forall>r \<in> set roots. r \<noteq> nullptr \<longrightarrow> h r \<noteq> None \<Longrightarrow>
   mark_phase roots h =
     Inr (\<lambda>a. if a \<in> set roots \<and> a \<noteq> nullptr then map_option (\<lambda>obj. obj\<lparr>marked := True\<rparr>) (h a) else h a)"
proof (induction roots arbitrary: h)
  case Nil
  then show ?case by simp
next
  case (Cons r rs)
  show ?case
  proof (cases "r = nullptr")
    case True
    have "(\<lambda>a. if a \<in> set rs \<and> a \<noteq> nullptr then map_option (\<lambda>obj. obj\<lparr>marked := True\<rparr>) (h a) else h a)
        = (\<lambda>a. if a \<in> set (r # rs) \<and> a \<noteq> nullptr then map_option (\<lambda>obj. obj\<lparr>marked := True\<rparr>) (h a) else h a)"
      using True by (intro ext) auto
    with Cons True show ?thesis by simp
  next
    case False
    with Cons.prems obtain obj where obj: "h r = Some obj" by auto
    let ?h = "h(r \<mapsto> obj\<lparr>marked := True\<rparr>)"
    have "\<forall>x \<in> set rs. x \<noteq> nullptr \<longrightarrow> ?h x \<noteq> None" using Cons.prems by auto
    from Cons.IH [OF this]
    have "mark_phase rs ?h = Inr (\<lambda>a. if a \<in> set rs \<and> a \<noteq> nullptr then map_option (\<lambda>obj. obj\<lparr>marked := True\<rparr>) (?h a) else ?h a)" .
    moreover have "(\<lambda>a. if a \<in> set rs \<and> a \<noteq> nullptr then map_option (\<lambda>obj. obj\<lparr>marked := True\<rparr>) (?h a) else ?h a)
        = (\<lambda>a. if a \<in> set (r # rs) \<and> a \<noteq> nullptr then map_option (\<lambda>obj. obj\<lparr>marked := True\<rparr>) (h a) else h a)"
      using False obj by (intro ext) auto
    ultimately show ?thesis using False obj by simp
  qed
qed

lemma sweep_phase_eq:
  "distinct objs \<Longrightarrow> \<forall>p \<in> set objs. p \<noteq> nullptr \<and> h p \<noteq> None \<Longrightarrow>
   sweep_phase objs h =
     Inr (filter (\<lambda>p. marked (the (h p))) objs,
          \<lambda>a. if a \<in> set objs
               then (if marked (the (h a)) then Some ((the (h a))\<lparr>marked := False\<rparr>) else None)
               else h a)"
proof (induction objs arbitrary: h)
  case Nil
  then show ?case by simp
next
  case (Cons p rest)
  from Cons.prems obtain obj where obj: "h p = Some obj" and nn: "p \<noteq> nullptr" by auto
  have d: "distinct rest" and pn: "p \<notin> set rest" using Cons.prems by auto
  show ?case
  proof (cases "marked obj")
    case True
    let ?h = "h(p \<mapsto> obj\<lparr>marked := False\<rparr>)"
    have "\<forall>x \<in> set rest. x \<noteq> nullptr \<and> ?h x \<noteq> None" using Cons.prems by auto
    from Cons.IH [OF d this]
    have "sweep_phase rest ?h = Inr (filter (\<lambda>p. marked (the (?h p))) rest,
          \<lambda>a. if a \<in> set rest
               then (if marked (the (?h a)) then Some ((the (?h a))\<lparr>marked := False\<rparr>) else None)
               else ?h a)" .
    moreover have "filter (\<lambda>x. marked (the (?h x))) rest = filter (\<lambda>x. marked (the (h x))) rest"
      using pn by (intro filter_cong) auto
    moreover have "(\<lambda>a. if a \<in> set rest
               then (if marked (the (?h a)) then Some ((the (?h a))\<lparr>marked := False\<rparr>) else None)
               else ?h a) = (\<lambda>a. if a \<in> set (p # rest)
               then (if marked (the (h a)) then Some ((the (h a))\<lparr>marked := False\<rparr>) else None)
               else h a)"
      using pn obj True by (intro ext) auto
    ultimately show ?thesis using True obj nn by (simp add: deref_def)
  next
    case False
    let ?h = "h(p := None)"
    have "\<forall>x \<in> set rest. x \<noteq> nullptr \<and> ?h x \<noteq> None" using Cons.prems by auto
    from Cons.IH [OF d this]
    have "sweep_phase rest ?h = Inr (filter (\<lambda>p. marked (the (?h p))) rest,
          \<lambda>a. if a \<in> set rest
               then (if marked (the (?h a)) then Some ((the (?h a))\<lparr>marked := False\<rparr>) else None)
               else ?h a)" .
    moreover have "filter (\<lambda>x. marked (the (?h x))) rest = filter (\<lambda>x. marked (the (h x))) rest"
      using pn by (intro filter_cong) auto
    moreover have "(\<lambda>a. if a \<in> set rest
               then (if marked (the (?h a)) then Some ((the (?h a))\<lparr>marked := False\<rparr>) else None)
               else ?h a) = (\<lambda>a. if a \<in> set (p # rest)
               then (if marked (the (h a)) then Some ((the (h a))\<lparr>marked := False\<rparr>) else None)
               else h a)"
      using pn obj False by (intro ext) auto
    ultimately show ?thesis using False obj nn by (simp add: deref_def)
  qed
qed


lemma collect_eq:
  assumes d: "distinct (objects g)" and sub: "set roots \<subseteq> set (objects g)"
    and tr: "\<forall>p \<in> set (objects g). p \<noteq> nullptr \<and> (\<exists>obj. h p = Some obj \<and> \<not> marked obj)"
  shows "collect roots g h out =
     Inr (roots, g\<lparr>objects := filter (\<lambda>p. p \<in> set roots) (objects g)\<rparr>,
          (\<lambda>a. if a \<in> set (objects g) \<and> a \<notin> set roots then None else h a),
          out @ [CycleFinished])"
proof -
  let ?objs = "objects g"
  let ?h1 = "\<lambda>a. if a \<in> set roots \<and> a \<noteq> nullptr then map_option (\<lambda>obj. obj\<lparr>marked := True\<rparr>) (h a) else h a"
  have "\<forall>r \<in> set roots. r \<noteq> nullptr \<longrightarrow> h r \<noteq> None" using sub tr by auto
  then have m: "mark_phase roots h = Inr ?h1" by (rule mark_phase_eq)
  have "\<forall>p \<in> set ?objs. p \<noteq> nullptr \<and> ?h1 p \<noteq> None" using tr by auto
  from sweep_phase_eq [OF d this]
  have sw: "sweep_phase ?objs ?h1 = Inr (filter (\<lambda>p. marked (the (?h1 p))) ?objs,
          \<lambda>a. if a \<in> set ?objs
               then (if marked (the (?h1 a)) then Some ((the (?h1 a))\<lparr>marked := False\<rparr>) else None)
               else ?h1 a)" .
  have f: "filter (\<lambda>p. marked (the (?h1 p))) ?objs = filter (\<lambda>p. p \<in> set roots) ?objs"
    using tr by (intro filter_cong) auto
  have h: "(\<lambda>a. if a \<in> set ?objs
               then (if marked (the (?h1 a)) then Some ((the (?h1 a))\<lparr>marked := False\<rparr>) else None)
               else ?h1 a) = (\<lambda>a. if a \<in> set ?objs \<and> a \<notin> set roots then None else h a)"
    using tr sub by (intro ext) auto
  show ?thesis using m sw f h by (simp add: collect_def)
qed

lemma gc_collect_eq:
  assumes "vm_inv s"
  shows "gc_collect s =
     Inr (s\<lparr>gc := (gc s)\<lparr>objects := filter (\<lambda>p. p \<in> set (stack s)) (objects (gc s))\<rparr>,
             heap := (\<lambda>a. if a \<in> set (objects (gc s)) \<and> a \<notin> set (stack s) then None else heap s a),
             cout := cout s @ [CycleFinished]\<rparr>)"
proof -
  from assms have "distinct (objects (gc s))" "set (stack s) \<subseteq> set (objects (gc s))"
    "\<forall>p \<in> set (objects (gc s)). p \<noteq> nullptr \<and> (\<exists>obj. heap s p = Some obj \<and> \<not> marked obj)"
    by (auto simp: vm_inv_def)
  from collect_eq [OF this] show ?thesis by (simp add: gc_collect_def)
qed

subsection \<open>The invariant is kept\<close>

lemma vm_inv_gc_collect:
  assumes "vm_inv s" and "gc_collect s = Inr s'"
  shows "vm_inv s'"
proof -
  from assms(2) gc_collect_eq [OF assms(1)]
  have s': "s' = s\<lparr>gc := (gc s)\<lparr>objects := filter (\<lambda>p. p \<in> set (stack s)) (objects (gc s))\<rparr>,
             heap := (\<lambda>a. if a \<in> set (objects (gc s)) \<and> a \<notin> set (stack s) then None else heap s a),
             cout := cout s @ [CycleFinished]\<rparr>" by simp
  from assms(1) show ?thesis unfolding s' vm_inv_def by auto
qed



lemma vm_inv_pop:
  assumes "vm_inv s" and "pop s = Inr (p, s')"
  shows "vm_inv s' \<and> p \<in> set (objects (gc s)) \<and> heap s' = heap s \<and> gc s' = gc s"
proof -
  from assms(2) have ne: "stack s \<noteq> []" and p: "p = last (stack s)"
    and s': "s' = s\<lparr>stack := butlast (stack s)\<rparr>"
    by (auto simp: pop_def split: if_splits)
  have "set (butlast (stack s)) \<subseteq> set (stack s)" by (auto dest: in_set_butlastD)
  with assms(1) have "vm_inv s'" unfolding s' vm_inv_def by auto
  moreover from ne assms(1) have "p \<in> set (objects (gc s))"
    unfolding p vm_inv_def using last_in_set by blast
  ultimately show ?thesis by (simp add: s')
qed

lemma vm_inv_push_new:
  assumes "vm_inv s" and "new_obj b s = (p, s1)"
  shows "vm_inv (push p s1)"
proof -
  from assms(2) have p: "p = brk s"
    and s1: "s1 = s\<lparr>heap := (heap s)(brk s \<mapsto> \<lparr>marked = False, body = b\<rparr>), brk := Suc (brk s)\<rparr>"
    by (auto simp: new_obj_def)
  from assms(1) have fresh: "brk s \<notin> set (objects (gc s))"
    by (force simp: vm_inv_def)
  from assms(1) have nn: "brk s \<noteq> nullptr" by (simp add: vm_inv_def nullptr_def)
  from assms(1) fresh nn show ?thesis
    unfolding p s1 vm_inv_def push_def track_def
    by (auto simp: less_Suc_eq)
qed

lemma exec_instr_ADD_D:
  assumes "code inst = OP_ADD" and "exec_instr inst s = Inr f"
  shows "\<exists>b s1 a s2 av bv.
           pop s = Inr (b, s1) \<and> static_cast_NumberObj (heap s1) b = Inr b \<and>
           pop s1 = Inr (a, s2) \<and> static_cast_NumberObj (heap s2) a = Inr a \<and>
           number_value (heap s2) a = Inr av \<and> number_value (heap s2) b = Inr bv \<and>
           f = Next (push (fst (new_obj (NumberObj (av + bv)) s2)) (snd (new_obj (NumberObj (av + bv)) s2)))"
proof -
  from assms obtain b0 s1 where 1: "pop s = Inr (b0, s1)"
    by (cases "pop s") (auto simp: exec_instr_def)
  from assms 1 obtain b where 2: "static_cast_NumberObj (heap s1) b0 = Inr b"
    by (cases "static_cast_NumberObj (heap s1) b0") (auto simp: exec_instr_def)
  then have b: "b = b0" by (auto simp: static_cast_NumberObj_def split: if_splits option.splits ObjBody.splits)
  from assms 1 2 obtain a0 s2 where 3: "pop s1 = Inr (a0, s2)"
    by (cases "pop s1") (auto simp: exec_instr_def)
  from assms 1 2 3 obtain a where 4: "static_cast_NumberObj (heap s2) a0 = Inr a"
    by (cases "static_cast_NumberObj (heap s2) a0") (auto simp: exec_instr_def)
  then have a: "a = a0" by (auto simp: static_cast_NumberObj_def split: if_splits option.splits ObjBody.splits)
  from assms 1 2 3 4 obtain av where 5: "number_value (heap s2) a = Inr av"
    by (cases "number_value (heap s2) a") (auto simp: exec_instr_def)
  from assms 1 2 3 4 5 obtain bv where 6: "number_value (heap s2) b = Inr bv"
    by (cases "number_value (heap s2) b") (auto simp: exec_instr_def)
  from assms 1 2 3 4 5 6
  have "f = Next (push (fst (new_obj (NumberObj (av + bv)) s2)) (snd (new_obj (NumberObj (av + bv)) s2)))"
    by (simp add: exec_instr_def split: prod.splits)
  with 1 2 3 4 5 6 a b show ?thesis by blast
qed

lemma vm_inv_exec_instr:
  assumes "vm_inv s" and "exec_instr inst s = Inr f"
  shows "vm_inv (case f of Next s' \<Rightarrow> s' | Return s' \<Rightarrow> s')"
proof (cases "code inst")
  case OP_PUSH_NUM
  with assms show ?thesis
    by (auto simp: exec_instr_def split: sum.splits prod.splits intro: vm_inv_push_new)
next
  case OP_PUSH_STR
  with assms show ?thesis
    by (auto simp: exec_instr_def split: sum.splits prod.splits intro: vm_inv_push_new)
next
  case OP_ADD
  from exec_instr_ADD_D [OF OP_ADD assms(2)] obtain b s1 a s2 v where
    1: "pop s = Inr (b, s1)" and 2: "pop s1 = Inr (a, s2)"
    and f: "f = Next (push (fst (new_obj (NumberObj v) s2)) (snd (new_obj (NumberObj v) s2)))"
    by blast
  from vm_inv_pop [OF assms(1) 1] have "vm_inv s1" by simp
  from vm_inv_pop [OF this 2] have "vm_inv s2" by simp
  then have "vm_inv (push (fst (new_obj (NumberObj v) s2)) (snd (new_obj (NumberObj v) s2)))"
    by (rule vm_inv_push_new) simp
  with f show ?thesis by simp
next
  case OP_PRINT
  with assms obtain obj s1 where 1: "pop s = Inr (obj, s1)"
    by (cases "pop s") (auto simp: exec_instr_def)
  define v where "v = the (deref (heap s1) obj)"
  from assms OP_PRINT 1 have f: "f = Next (s1\<lparr>cout := cout s1 @ [Printed (body v)]\<rparr>)"
    by (auto simp: exec_instr_def v_def split: option.splits)
  from vm_inv_pop [OF assms(1) 1] have "vm_inv s1" by simp
  then have "vm_inv (s1\<lparr>cout := cout s1 @ [Printed (body v)]\<rparr>)" by (simp add: vm_inv_def)
  with f show ?thesis by simp
next
  case OP_HALT
  with assms show ?thesis by (auto simp: exec_instr_def vm_inv_def)
qed (use assms in \<open>auto simp: exec_instr_def\<close>)


lemma vm_inv_advance:
  "vm_inv s \<Longrightarrow> advance s = Inr s' \<Longrightarrow> vm_inv s'"
proof -
  assume a: "vm_inv s" "advance s = Inr s'"
  have "vm_inv (s\<lparr>ip := ip s + 1\<rparr>)" using a(1) by (simp add: vm_inv_def)
  with a(2) show ?thesis
    by (auto simp: advance_def Let_def split: if_splits intro: vm_inv_gc_collect)
qed

lemma vm_inv_step:
  assumes "vm_inv s" and "step s = Inr f"
  shows "vm_inv (case f of Next s' \<Rightarrow> s' | Return s' \<Rightarrow> s')"
  using assms vm_inv_exec_instr [OF assms(1), of "bytecode s ! ip s"]
  by (auto simp: step_def split: sum.splits Flow.splits dest: vm_inv_advance)

lemma vm_inv_run_loop:
  "vm_inv s \<Longrightarrow> run_loop s = Inr s' \<Longrightarrow> vm_inv s'"
proof (induction s rule: run_loop.induct)
  case (1 s)
  show ?case
  proof (cases "ip s < length (bytecode s)")
    case False
    with "1.prems" show ?thesis by (simp add: run_loop.simps)
  next
    case True
    from True "1.prems"(2) obtain f where f: "step s = Inr f"
      by (subst (asm) run_loop.simps) (auto split: sum.splits)
    from vm_inv_step [OF "1.prems"(1) f] have inv: "vm_inv (case f of Next s' \<Rightarrow> s' | Return s' \<Rightarrow> s')" .
    show ?thesis
    proof (cases f)
      case (Next s1)
      with True f "1.prems"(2) have "run_loop s1 = Inr s'"
        by (subst (asm) run_loop.simps) simp
      with "1.IH" [OF True f Next] inv Next show ?thesis by simp
    next
      case (Return s1)
      with True f "1.prems"(2) have "s' = s1"
        by (subst (asm) run_loop.simps) simp
      with inv Return show ?thesis by simp
    qed
  qed
qed

lemma vm_inv_run: "vm_inv s \<Longrightarrow> run s = Inr s' \<Longrightarrow> vm_inv s'"
proof -
  assume a: "vm_inv s" "run s = Inr s'"
  have "vm_inv (s\<lparr>cout := cout s @ [ExecutionStarted]\<rparr>)" using a(1) by (simp add: vm_inv_def)
  with a(2) show ?thesis unfolding run_def by (rule vm_inv_run_loop [rotated])
qed

subsection \<open>The loop, pass by pass\<close>

text \<open>\<open>run_passes\<close> is the loop of \<open>run\<close>, cut after \<open>n\<close> passes.\<close>

lemma run_loop_passes:
  "run_passes n s = Inr (Next s') \<Longrightarrow> run_loop s = run_loop s'"
  "run_passes n s = Inr (Return s') \<Longrightarrow> run_loop s = Inr s'"
  "run_passes n s = Inl e \<Longrightarrow> run_loop s = Inl e"
proof (induction n arbitrary: s)
  case 0
  { case 1 then show ?case by simp }
  { case 2 then show ?case by simp }
  { case 3 then show ?case by simp }
next
  case (Suc n)
  { case 1 then show ?case
      by (subst run_loop.simps) (auto split: if_splits sum.splits Flow.splits dest: Suc.IH(1)) }
  { case 2 then show ?case
      by (subst run_loop.simps) (auto split: if_splits sum.splits Flow.splits dest: Suc.IH(2)) }
  { case 3 then show ?case
      by (subst run_loop.simps) (auto split: if_splits sum.splits Flow.splits dest: Suc.IH(3)) }
qed

text \<open>An instruction that fails ends the loop with its error.\<close>

lemma run_loop_underflow:
  assumes "ip t < length (bytecode t)"
    and "exec_instr (bytecode t ! ip t) t = Inl e"
  shows "run_loop t = Inl e"
  using assms by (subst run_loop.simps) (simp add: step_def)

section \<open>The program of main, run\<close>

lemmas vm_defs =
  run_def loadProgram_def KryptonVM_init_def step_def exec_instr_def get_double_def
  get_string_def new_obj_def push_def track_def pop_def advance_def INT_MAX_def
  gc_collect_def collect_def deref_def nullptr_def static_cast_NumberObj_def
  number_value_def

lemma main_program_eq:
  "main_program =
     [\<lparr>code = OP_PUSH_NUM, operand = AltDouble 10\<rparr>,
      \<lparr>code = OP_PUSH_NUM, operand = AltDouble 20\<rparr>,
      \<lparr>code = OP_ADD, operand = AltDouble 0\<rparr>,
      \<lparr>code = OP_PUSH_NUM, operand = AltDouble 2\<rparr>,
      \<lparr>code = OP_MUL, operand = AltDouble 0\<rparr>,
      \<lparr>code = OP_PUSH_STR, operand = AltString ''Hasil Kalkulasi: ''\<rparr>,
      \<lparr>code = OP_PRINT, operand = AltDouble 0\<rparr>,
      \<lparr>code = OP_PRINT, operand = AltDouble 0\<rparr>,
      \<lparr>code = OP_HALT, operand = AltDouble 0\<rparr>]"
  by (simp add: main_program_def emit_def emit_double_def emit_string_def)

lemma vm_inv_vm_at_cycle: "vm_inv vm_at_cycle"
  by (auto simp: vm_inv_def vm_at_cycle_def nullptr_def split: if_splits)

text \<open>It is what the first four passes of \<open>run\<close> on that program give, but for \<open>ip\<close>.\<close>

lemma vm_at_cycle_reached:
  "run_passes (Suc (Suc (Suc (Suc 0)))) ((loadProgram main_program KryptonVM_init)\<lparr>cout := [ExecutionStarted]\<rparr>) =
     Inr (Next (vm_at_cycle\<lparr>ip := 4\<rparr>))"
  apply (simp add: main_program_eq vm_defs vm_at_cycle_def)
  apply (simp add: eval_nat_numeral)
  done

text \<open>
  The fifth instruction is the \<open>MUL\<close>, which does nothing; \<open>ip\<close> becomes 5 and
  the collector is called on \<open>vm_at_cycle\<close>.
\<close>

lemma gc_collect_vm_at_cycle:
  "gc_collect vm_at_cycle =
     Inr (vm_at_cycle\<lparr>gc := \<lparr>objects = [3, 4]\<rparr>,
            heap := (heap vm_at_cycle)(1 := None, 2 := None),
            cout := [ExecutionStarted, CycleFinished]\<rparr>)"
  by (simp add: gc_collect_def collect_def vm_at_cycle_def deref_def nullptr_def fun_upd_twist)

lemma vm_at_cycle_fifth_pass:
  "step (vm_at_cycle\<lparr>ip := 4\<rparr>) = map_sum id Next (gc_collect vm_at_cycle)"
proof -
  have "exec_instr (bytecode (vm_at_cycle\<lparr>ip := 4\<rparr>) ! ip (vm_at_cycle\<lparr>ip := 4\<rparr>)) (vm_at_cycle\<lparr>ip := 4\<rparr>)
      = Inr (Next (vm_at_cycle\<lparr>ip := 4\<rparr>))"
    by (simp add: vm_at_cycle_def main_program_eq exec_instr_def)
  moreover have "advance (vm_at_cycle\<lparr>ip := 4\<rparr>) = gc_collect vm_at_cycle"
    by (simp add: advance_def INT_MAX_def vm_at_cycle_def)
  ultimately show ?thesis
    by (simp add: step_def gc_collect_vm_at_cycle)
qed

section \<open>The collector\<close>

text \<open>
  C1. A call of \<open>collect\<close> with the operand stack as root set, on a well-formed
  machine, returns; every object the stack refers to at the call is tracked afterwards
  and is the same object as before, payload and mark bit; every tracked object the stack
  does not refer to is no longer tracked afterwards, and is freed.
\<close>

theorem collect_keeps_roots_reclaims_rest:
  assumes "vm_inv s"
  shows "\<exists>s'. gc_collect s = Inr s' \<and>
           (\<forall>p \<in> set (stack s).
              p \<in> set (objects (gc s')) \<and> (\<exists>obj. heap s p = Some obj \<and> heap s' p = Some obj)) \<and>
           (\<forall>p \<in> set (objects (gc s)).
              p \<notin> set (stack s) \<longrightarrow> p \<notin> set (objects (gc s')) \<and> heap s' p = None)"
proof -
  let ?s' = "s\<lparr>gc := (gc s)\<lparr>objects := filter (\<lambda>p. p \<in> set (stack s)) (objects (gc s))\<rparr>,
             heap := (\<lambda>a. if a \<in> set (objects (gc s)) \<and> a \<notin> set (stack s) then None else heap s a),
             cout := cout s @ [CycleFinished]\<rparr>"
  have run: "gc_collect s = Inr ?s'" using assms by (rule gc_collect_eq)
  have roots: "\<forall>p \<in> set (stack s).
      p \<in> set (objects (gc ?s')) \<and> (\<exists>obj. heap s p = Some obj \<and> heap ?s' p = Some obj)"
    using assms by (auto simp: vm_inv_def)
  have rest: "\<forall>p \<in> set (objects (gc s)).
      p \<notin> set (stack s) \<longrightarrow> p \<notin> set (objects (gc ?s')) \<and> heap ?s' p = None"
    by simp
  from run roots rest show ?thesis by blast
qed

theorem collect_keeps_roots_reclaims_rest_witness:
  "vm_inv vm_at_cycle \<and>
   (\<exists>s'. gc_collect vm_at_cycle = Inr s' \<and>
      3 \<in> set (objects (gc s')) \<and> heap s' 3 = Some \<lparr>marked = False, body = NumberObj 30\<rparr> \<and>
      4 \<in> set (objects (gc s')) \<and> heap s' 4 = Some \<lparr>marked = False, body = NumberObj 2\<rparr> \<and>
      1 \<notin> set (objects (gc s')) \<and> heap s' 1 = None \<and>
      2 \<notin> set (objects (gc s')) \<and> heap s' 2 = None)"
proof -
  from collect_keeps_roots_reclaims_rest [OF vm_inv_vm_at_cycle]
  obtain s' where run: "gc_collect vm_at_cycle = Inr s'"
    and roots: "\<forall>p \<in> set (stack vm_at_cycle).
      p \<in> set (objects (gc s')) \<and> (\<exists>obj. heap vm_at_cycle p = Some obj \<and> heap s' p = Some obj)"
    and rest: "\<forall>p \<in> set (objects (gc vm_at_cycle)).
      p \<notin> set (stack vm_at_cycle) \<longrightarrow> p \<notin> set (objects (gc s')) \<and> heap s' p = None"
    by blast
  from roots have "3 \<in> set (objects (gc s'))" "heap s' 3 = Some \<lparr>marked = False, body = NumberObj 30\<rparr>"
    "4 \<in> set (objects (gc s'))" "heap s' 4 = Some \<lparr>marked = False, body = NumberObj 2\<rparr>"
    by (auto simp: vm_at_cycle_def)
  moreover from rest have "1 \<notin> set (objects (gc s'))" "heap s' 1 = None"
    "2 \<notin> set (objects (gc s'))" "heap s' 2 = None"
    by (auto simp: vm_at_cycle_def)
  ultimately show ?thesis using run vm_inv_vm_at_cycle by blast
qed

text \<open>
  C4. Right after a sweep the mark bit of every tracked object is false: a sweep over a
  tracker of distinct live objects, whatever their marks, returns and leaves only
  unmarked objects tracked, and so does every collection cycle of a well-formed machine.
\<close>

theorem sweep_leaves_no_mark:
  "(distinct objs \<and> (\<forall>p \<in> set objs. p \<noteq> nullptr \<and> h p \<noteq> None) \<longrightarrow>
      (\<exists>kept h'. sweep_phase objs h = Inr (kept, h') \<and>
         (\<forall>p \<in> set kept. \<exists>obj. h' p = Some obj \<and> \<not> marked obj))) \<and>
   (vm_inv s \<longrightarrow>
      (\<exists>s'. gc_collect s = Inr s' \<and>
         (\<forall>p \<in> set (objects (gc s')). \<exists>obj. heap s' p = Some obj \<and> \<not> marked obj)))"
proof (intro conjI impI)
  assume a: "distinct objs \<and> (\<forall>p \<in> set objs. p \<noteq> nullptr \<and> h p \<noteq> None)"
  then have "sweep_phase objs h =
     Inr (filter (\<lambda>p. marked (the (h p))) objs,
          \<lambda>a. if a \<in> set objs
               then (if marked (the (h a)) then Some ((the (h a))\<lparr>marked := False\<rparr>) else None)
               else h a)"
    by (intro sweep_phase_eq) auto
  then show "\<exists>kept h'. sweep_phase objs h = Inr (kept, h') \<and>
         (\<forall>p \<in> set kept. \<exists>obj. h' p = Some obj \<and> \<not> marked obj)"
    by simp
next
  assume inv: "vm_inv s"
  then obtain s' where s': "gc_collect s = Inr s'"
    using gc_collect_eq by blast
  from vm_inv_gc_collect [OF inv s'] have "vm_inv s'" .
  then have "\<forall>p \<in> set (objects (gc s')). \<exists>obj. heap s' p = Some obj \<and> \<not> marked obj"
    by (auto simp: vm_inv_def)
  with s' show "\<exists>s'. gc_collect s = Inr s' \<and>
         (\<forall>p \<in> set (objects (gc s')). \<exists>obj. heap s' p = Some obj \<and> \<not> marked obj)"
    by blast
qed

theorem sweep_leaves_no_mark_witness:
  "distinct [1, 2 :: addr] \<and>
   (\<exists>kept h'.
      sweep_phase [1, 2]
        ((\<lambda>_::addr. None)(1 \<mapsto> \<lparr>marked = True, body = NumberObj (10::real)\<rparr>,
                      2 \<mapsto> \<lparr>marked = False, body = NumberObj 20\<rparr>)) = Inr (kept, h') \<and>
      kept = [1] \<and> (\<exists>obj. h' 1 = Some obj \<and> \<not> marked obj) \<and> h' 2 = None) \<and>
   vm_inv vm_at_cycle \<and>
   (\<exists>s'. gc_collect vm_at_cycle = Inr s' \<and> objects (gc s') = [3, 4] \<and>
      (\<exists>obj. heap s' 3 = Some obj \<and> \<not> marked obj) \<and>
      (\<exists>obj. heap s' 4 = Some obj \<and> \<not> marked obj))"
proof -
  let ?h = "(\<lambda>_::addr. None)(1 \<mapsto> \<lparr>marked = True, body = NumberObj (10::real)\<rparr>,
                          2 \<mapsto> \<lparr>marked = False, body = NumberObj 20\<rparr>)"
  let ?h1 = "?h(1 \<mapsto> \<lparr>marked = False, body = NumberObj 10\<rparr>, 2 := None)"
  let ?s1 = "vm_at_cycle\<lparr>gc := \<lparr>objects = [3, 4]\<rparr>,
      heap := (heap vm_at_cycle)(1 := None, 2 := None), cout := [ExecutionStarted, CycleFinished]\<rparr>"
  have pre: "distinct [1, 2 :: addr] \<and> (\<forall>p \<in> set [1, 2 :: addr]. p \<noteq> nullptr \<and> ?h p \<noteq> None)"
    by (simp add: nullptr_def)
  have sw: "sweep_phase [1, 2] ?h = Inr ([1], ?h1)"
    by (simp add: deref_def nullptr_def)
  have gcr: "gc_collect vm_at_cycle = Inr ?s1"
    by (simp add: gc_collect_def collect_def vm_at_cycle_def deref_def nullptr_def fun_upd_twist)
  from sweep_leaves_no_mark [of "[1, 2]" ?h vm_at_cycle] pre vm_inv_vm_at_cycle
  have 1: "\<exists>kept h'. sweep_phase [1, 2] ?h = Inr (kept, h') \<and>
         (\<forall>p \<in> set kept. \<exists>obj. h' p = Some obj \<and> \<not> marked obj)"
    and 2: "\<exists>s'. gc_collect vm_at_cycle = Inr s' \<and>
         (\<forall>p \<in> set (objects (gc s')). \<exists>obj. heap s' p = Some obj \<and> \<not> marked obj)"
    by blast+
  from 1 sw have "\<forall>p \<in> set [1 :: addr]. \<exists>obj. ?h1 p = Some obj \<and> \<not> marked obj"
    by auto
  then have a: "\<exists>obj. ?h1 1 = Some obj \<and> \<not> marked obj" by simp
  have b: "?h1 2 = None" by simp
  from 2 gcr have "\<forall>p \<in> set (objects (gc ?s1)). \<exists>obj. heap ?s1 p = Some obj \<and> \<not> marked obj"
    by auto
  then have c: "(\<exists>obj. heap ?s1 3 = Some obj \<and> \<not> marked obj) \<and>
      (\<exists>obj. heap ?s1 4 = Some obj \<and> \<not> marked obj)" by simp
  have d: "objects (gc ?s1) = [3, 4]" by simp
  have e: "distinct [1, 2 :: addr]" by simp
  from sw a b have A: "\<exists>kept h'. sweep_phase [1, 2] ?h = Inr (kept, h') \<and>
      kept = [1] \<and> (\<exists>obj. h' 1 = Some obj \<and> \<not> marked obj) \<and> h' 2 = None"
    by blast
  from gcr c d have B: "\<exists>s'. gc_collect vm_at_cycle = Inr s' \<and> objects (gc s') = [3, 4] \<and>
      (\<exists>obj. heap s' 3 = Some obj \<and> \<not> marked obj) \<and>
      (\<exists>obj. heap s' 4 = Some obj \<and> \<not> marked obj)"
    by blast
  from e A vm_inv_vm_at_cycle B show ?thesis by blast
qed

text \<open>
  C6. Two calls of \<open>collect\<close> in a row, with the same stack as root set and no
  allocation in between, both return, and the second one changes neither the tracked
  objects nor the store nor the stack.
\<close>

theorem collect_twice_is_collect_once:
  assumes "vm_inv s"
  shows "\<exists>s' s''. gc_collect s = Inr s' \<and> gc_collect s' = Inr s'' \<and>
           objects (gc s'') = objects (gc s') \<and> heap s'' = heap s' \<and> stack s'' = stack s'"
proof -
  let ?s' = "s\<lparr>gc := (gc s)\<lparr>objects := filter (\<lambda>p. p \<in> set (stack s)) (objects (gc s))\<rparr>,
             heap := (\<lambda>a. if a \<in> set (objects (gc s)) \<and> a \<notin> set (stack s) then None else heap s a),
             cout := cout s @ [CycleFinished]\<rparr>"
  let ?s'' = "?s'\<lparr>gc := (gc ?s')\<lparr>objects := filter (\<lambda>p. p \<in> set (stack ?s')) (objects (gc ?s'))\<rparr>,
             heap := (\<lambda>a. if a \<in> set (objects (gc ?s')) \<and> a \<notin> set (stack ?s') then None else heap ?s' a),
             cout := cout ?s' @ [CycleFinished]\<rparr>"
  have first: "gc_collect s = Inr ?s'" using assms by (rule gc_collect_eq)
  with assms have "vm_inv ?s'" by (rule vm_inv_gc_collect)
  then have second: "gc_collect ?s' = Inr ?s''" by (rule gc_collect_eq)
  have objs: "objects (gc ?s'') = objects (gc ?s')" by simp
  have hp: "heap ?s'' = heap ?s'" by (auto intro!: ext)
  have st: "stack ?s'' = stack ?s'" by simp
  from first second objs hp st show ?thesis by blast
qed

theorem collect_twice_is_collect_once_witness:
  "vm_inv vm_at_cycle \<and>
   (\<exists>s' s''. gc_collect vm_at_cycle = Inr s' \<and> gc_collect s' = Inr s'' \<and>
      objects (gc s') = [3, 4] \<and> objects (gc s'') = [3, 4] \<and> heap s'' = heap s' \<and>
      stack s'' = [3, 4])"
proof -
  from collect_twice_is_collect_once [OF vm_inv_vm_at_cycle]
  obtain s' s'' where 1: "gc_collect vm_at_cycle = Inr s'" and 2: "gc_collect s' = Inr s''"
    and 3: "objects (gc s'') = objects (gc s')" "heap s'' = heap s'" "stack s'' = stack s'"
    by blast
  from 1 have "s' = vm_at_cycle\<lparr>gc := \<lparr>objects = [3, 4]\<rparr>,
            heap := (heap vm_at_cycle)(1 := None, 2 := None),
            cout := [ExecutionStarted, CycleFinished]\<rparr>"
    by (simp add: gc_collect_vm_at_cycle)
  then have s': "objects (gc s') = [3, 4]" "stack s' = [3, 4]"
    by (simp_all add: vm_at_cycle_def)
  with 1 2 3 vm_inv_vm_at_cycle show ?thesis by auto
qed

text \<open>
  C10. \<open>collect\<close> hands back the root vector it was given, the same handles in the
  same order, whenever it returns; on a well-formed machine it returns, the stack is as
  it was, and every object the stack refers to is as it was, its mark bit reset.
\<close>

theorem collect_leaves_roots:
  "(collect roots g h out = Inr (roots', g', h', out') \<longrightarrow> roots' = roots) \<and>
   (vm_inv s \<longrightarrow>
      (\<exists>s'. gc_collect s = Inr s' \<and> stack s' = stack s \<and>
         (\<forall>p \<in> set (stack s'). heap s' p = heap s p)))"
proof (intro conjI impI)
  assume "collect roots g h out = Inr (roots', g', h', out')"
  then show "roots' = roots"
    by (auto simp: collect_def split: sum.splits prod.splits)
next
  assume inv: "vm_inv s"
  let ?s' = "s\<lparr>gc := (gc s)\<lparr>objects := filter (\<lambda>p. p \<in> set (stack s)) (objects (gc s))\<rparr>,
             heap := (\<lambda>a. if a \<in> set (objects (gc s)) \<and> a \<notin> set (stack s) then None else heap s a),
             cout := cout s @ [CycleFinished]\<rparr>"
  have "gc_collect s = Inr ?s'" using inv by (rule gc_collect_eq)
  moreover have "stack ?s' = stack s" by simp
  moreover have "\<forall>p \<in> set (stack ?s'). heap ?s' p = heap s p" by simp
  ultimately show "\<exists>s'. gc_collect s = Inr s' \<and> stack s' = stack s \<and>
         (\<forall>p \<in> set (stack s'). heap s' p = heap s p)"
    by blast
qed

theorem collect_leaves_roots_witness:
  "(\<exists>g' h' out'.
      collect [3, 4] (gc vm_at_cycle) (heap vm_at_cycle) [] = Inr ([3, 4], g', h', out')) \<and>
   vm_inv vm_at_cycle \<and>
   (\<exists>s'. gc_collect vm_at_cycle = Inr s' \<and> stack s' = [3, 4] \<and>
      heap s' 3 = Some \<lparr>marked = False, body = NumberObj 30\<rparr> \<and>
      heap s' 4 = Some \<lparr>marked = False, body = NumberObj 2\<rparr>)"
proof -
  have "\<exists>r. collect [3, 4] (gc vm_at_cycle) (heap vm_at_cycle) [] = Inr r"
    by (simp add: collect_def vm_at_cycle_def deref_def nullptr_def)
  then obtain roots' g' h' out' where
    c: "collect [3, 4] (gc vm_at_cycle) (heap vm_at_cycle) [] = Inr (roots', g', h', out')"
    by (metis prod_cases4)
  with collect_leaves_roots [of "[3, 4]" "gc vm_at_cycle" "heap vm_at_cycle" "[]" roots' g' h' out' vm_at_cycle]
  have "roots' = [3, 4]" by blast
  with c have A: "\<exists>g' h' out'.
      collect [3, 4] (gc vm_at_cycle) (heap vm_at_cycle) [] = Inr ([3, 4], g', h', out')"
    by blast
  from collect_leaves_roots [of "[3, 4]" "gc vm_at_cycle" "heap vm_at_cycle" "[]" roots' g' h' out' vm_at_cycle]
    vm_inv_vm_at_cycle
  obtain s' where 1: "gc_collect vm_at_cycle = Inr s'" and 2: "stack s' = stack vm_at_cycle"
    and 3: "\<forall>p \<in> set (stack s'). heap s' p = heap vm_at_cycle p"
    by blast
  from 2 have st: "stack s' = [3, 4]" by (simp add: vm_at_cycle_def)
  with 3 have "heap s' 3 = heap vm_at_cycle 3" "heap s' 4 = heap vm_at_cycle 4" by simp_all
  then have "heap s' 3 = Some \<lparr>marked = False, body = NumberObj 30\<rparr>"
    "heap s' 4 = Some \<lparr>marked = False, body = NumberObj 2\<rparr>"
    by (simp_all add: vm_at_cycle_def)
  with 1 st A vm_inv_vm_at_cycle show ?thesis by blast
qed

section \<open>The instructions\<close>

text \<open>
  C5. \<open>pop\<close> on an empty operand stack fails with \<open>StackUnderflow\<close>, and on any
  other stack it hands out the last entry and reads nothing else. The failure ends the
  run and reaches the caller: at whatever state \<open>t\<close> of the machine the instruction
  at \<open>ip\<close> pops from an empty stack (\<open>PRINT\<close> or \<open>ADD\<close> on the empty stack,
  \<open>ADD\<close> on a stack of one number), that pass fails, the loop from \<open>t\<close> ends in
  \<open>StackUnderflow\<close>, and so does every \<open>run\<close> that reaches \<open>t\<close> after any
  number of passes; no further instruction is executed.
\<close>

theorem pop_empty_is_StackUnderflow:
  "(stack t = [] \<longrightarrow> pop t = Inl StackUnderflow) \<and>
   (stack t \<noteq> [] \<longrightarrow> pop t = Inr (last (stack t), t\<lparr>stack := butlast (stack t)\<rparr>)) \<and>
   (ip t < length (bytecode t) \<and>
    (stack t = [] \<and>
       (code (bytecode t ! ip t) = OP_PRINT \<or> code (bytecode t ! ip t) = OP_ADD) \<or>
     stack t = [b] \<and> static_cast_NumberObj (heap t) b = Inr b \<and>
       code (bytecode t ! ip t) = OP_ADD) \<longrightarrow>
      step t = Inl StackUnderflow \<and>
      run_loop t = Inl StackUnderflow \<and>
      (\<forall>n s. run_passes n (s\<lparr>cout := cout s @ [ExecutionStarted]\<rparr>) = Inr (Next t) \<longrightarrow>
         run s = Inl StackUnderflow))"
proof (intro conjI impI)
  assume "stack t = []"
  then show "pop t = Inl StackUnderflow" by (simp add: pop_def)
next
  assume "stack t \<noteq> []"
  then show "pop t = Inr (last (stack t), t\<lparr>stack := butlast (stack t)\<rparr>)"
    by (simp add: pop_def)
next
  assume a: "ip t < length (bytecode t) \<and>
    (stack t = [] \<and>
       (code (bytecode t ! ip t) = OP_PRINT \<or> code (bytecode t ! ip t) = OP_ADD) \<or>
     stack t = [b] \<and> static_cast_NumberObj (heap t) b = Inr b \<and>
       code (bytecode t ! ip t) = OP_ADD)"
  then have guard: "ip t < length (bytecode t)" by simp
  from a have ex: "exec_instr (bytecode t ! ip t) t = Inl StackUnderflow"
    by (auto simp: exec_instr_def pop_def)
  then show "step t = Inl StackUnderflow" by (simp add: step_def)
  from guard ex show loop: "run_loop t = Inl StackUnderflow" by (rule run_loop_underflow)
  show "\<forall>n s. run_passes n (s\<lparr>cout := cout s @ [ExecutionStarted]\<rparr>) = Inr (Next t) \<longrightarrow>
         run s = Inl StackUnderflow"
  proof (intro allI impI)
    fix n and s :: "'a KryptonVM"
    assume "run_passes n (s\<lparr>cout := cout s @ [ExecutionStarted]\<rparr>) = Inr (Next t)"
    then have "run_loop (s\<lparr>cout := cout s @ [ExecutionStarted]\<rparr>) = run_loop t"
      by (rule run_loop_passes(1))
    with loop show "run s = Inl StackUnderflow" by (simp add: run_def)
  qed
qed

theorem pop_empty_is_StackUnderflow_witness:
  "pop (KryptonVM_init :: real KryptonVM) = Inl StackUnderflow \<and>
   pop vm_at_cycle = Inr (4, vm_at_cycle\<lparr>stack := [3]\<rparr>) \<and>
   run (loadProgram
          [\<lparr>code = OP_PUSH_NUM, operand = AltDouble 1\<rparr>,
           \<lparr>code = OP_PRINT, operand = AltDouble 0\<rparr>,
           \<lparr>code = OP_PRINT, operand = AltDouble 0\<rparr>]
          (KryptonVM_init :: real KryptonVM)) = Inl StackUnderflow \<and>
   run (loadProgram
          [\<lparr>code = OP_PUSH_NUM, operand = AltDouble 1\<rparr>,
           \<lparr>code = OP_ADD, operand = AltDouble 0\<rparr>]
          (KryptonVM_init :: real KryptonVM)) = Inl StackUnderflow \<and>
   run (loadProgram [\<lparr>code = OP_ADD, operand = AltDouble 0\<rparr>]
          (KryptonVM_init :: real KryptonVM)) = Inl StackUnderflow"
proof -
  let ?s0 = "KryptonVM_init :: real KryptonVM"
  let ?p1 = "[\<lparr>code = OP_PUSH_NUM, operand = AltDouble (1::real)\<rparr>,
           \<lparr>code = OP_PRINT, operand = AltDouble 0\<rparr>,
           \<lparr>code = OP_PRINT, operand = AltDouble 0\<rparr>]"
  let ?p2 = "[\<lparr>code = OP_PUSH_NUM, operand = AltDouble (1::real)\<rparr>,
           \<lparr>code = OP_ADD, operand = AltDouble 0\<rparr>]"
  let ?p3 = "[\<lparr>code = OP_ADD, operand = AltDouble (0::real)\<rparr>]"
  let ?e1 = "(loadProgram ?p1 ?s0)\<lparr>cout := cout (loadProgram ?p1 ?s0) @ [ExecutionStarted]\<rparr>"
  let ?e2 = "(loadProgram ?p2 ?s0)\<lparr>cout := cout (loadProgram ?p2 ?s0) @ [ExecutionStarted]\<rparr>"
  let ?e3 = "(loadProgram ?p3 ?s0)\<lparr>cout := cout (loadProgram ?p3 ?s0) @ [ExecutionStarted]\<rparr>"
  have "stack ?s0 = []" by (simp add: KryptonVM_init_def)
  with pop_empty_is_StackUnderflow [of ?s0] have A: "pop ?s0 = Inl StackUnderflow" by blast
  have "stack vm_at_cycle \<noteq> []" by (simp add: vm_at_cycle_def)
  with pop_empty_is_StackUnderflow [of vm_at_cycle]
  have "pop vm_at_cycle = Inr (last (stack vm_at_cycle), vm_at_cycle\<lparr>stack := butlast (stack vm_at_cycle)\<rparr>)"
    by blast
  then have B: "pop vm_at_cycle = Inr (4, vm_at_cycle\<lparr>stack := [3]\<rparr>)"
    by (simp add: vm_at_cycle_def)
  have "\<exists>t. run_passes (Suc (Suc 0)) ?e1 = Inr (Next t) \<and> ip t < length (bytecode t) \<and>
      stack t = [] \<and> code (bytecode t ! ip t) = OP_PRINT"
    by (simp add: vm_defs)
  then obtain t1 where t1: "run_passes (Suc (Suc 0)) ?e1 = Inr (Next t1)"
    "ip t1 < length (bytecode t1)" "stack t1 = []" "code (bytecode t1 ! ip t1) = OP_PRINT"
    by blast
  with pop_empty_is_StackUnderflow [of t1] have C: "run (loadProgram ?p1 ?s0) = Inl StackUnderflow"
    by blast
  have "\<exists>t. run_passes (Suc 0) ?e2 = Inr (Next t) \<and> ip t < length (bytecode t) \<and>
      stack t = [1] \<and> static_cast_NumberObj (heap t) 1 = Inr 1 \<and> code (bytecode t ! ip t) = OP_ADD"
    by (simp add: vm_defs)
  then obtain t2 where t2: "run_passes (Suc 0) ?e2 = Inr (Next t2)"
    "ip t2 < length (bytecode t2)" "stack t2 = [1]" "static_cast_NumberObj (heap t2) 1 = Inr 1"
    "code (bytecode t2 ! ip t2) = OP_ADD"
    by blast
  with pop_empty_is_StackUnderflow [of t2 1] have D: "run (loadProgram ?p2 ?s0) = Inl StackUnderflow"
    by blast
  have t3: "run_passes 0 ?e3 = Inr (Next ?e3)" "ip ?e3 < length (bytecode ?e3)" "stack ?e3 = []"
    "code (bytecode ?e3 ! ip ?e3) = OP_ADD"
    by (simp_all add: loadProgram_def KryptonVM_init_def)
  with pop_empty_is_StackUnderflow [of ?e3] have E: "run (loadProgram ?p3 ?s0) = Inl StackUnderflow"
    by blast
  from A B C D E show ?thesis by blast
qed

text \<open>
  C9. \<open>ADD\<close> on a well-formed machine whose two top stack entries \<open>a\<close> (below)
  and \<open>b\<close> (on top) are numbers \<open>x\<close> and \<open>y\<close> pops both and pushes one new
  handle: an address that was free and untracked before, now holding an unmarked
  \<open>NumberObj\<close> of value \<open>x + y\<close> and appended to the tracker; no other object
  changes.
\<close>

theorem add_pushes_tracked_sum:
  assumes "vm_inv s" and "code inst = OP_ADD" and "stack s = st @ [a, b]"
    and "heap s a = Some oa" and "body oa = NumberObj x"
    and "heap s b = Some ob" and "body ob = NumberObj y"
  shows "\<exists>s'. exec_instr inst s = Inr (Next s') \<and>
           stack s' = st @ [brk s] \<and>
           heap s (brk s) = None \<and> brk s \<notin> set (objects (gc s)) \<and>
           heap s' (brk s) = Some \<lparr>marked = False, body = NumberObj (x + y)\<rparr> \<and>
           objects (gc s') = objects (gc s) @ [brk s] \<and>
           (\<forall>q. q \<noteq> brk s \<longrightarrow> heap s' q = heap s q)"
proof -
  let ?s1 = "s\<lparr>stack := st @ [a]\<rparr>" and ?s2 = "s\<lparr>stack := st\<rparr>"
  let ?s' = "s\<lparr>stack := st @ [brk s], gc := track (brk s) (gc s),
               heap := (heap s)(brk s \<mapsto> \<lparr>marked = False, body = NumberObj (x + y)\<rparr>),
               brk := Suc (brk s)\<rparr>"
  from assms(1,3) have tracked: "a \<in> set (objects (gc s))" "b \<in> set (objects (gc s))"
    by (auto simp: vm_inv_def)
  with assms(1) have nn: "a \<noteq> nullptr" "b \<noteq> nullptr" by (auto simp: vm_inv_def)
  have p1: "pop s = Inr (b, ?s1)" using assms(3) by (simp add: pop_def butlast_append)
  have p2: "pop ?s1 = Inr (a, ?s2)" by (simp add: pop_def)
  have c1: "static_cast_NumberObj (heap ?s1) b = Inr b"
    using assms(6,7) nn by (simp add: static_cast_NumberObj_def)
  have c2: "static_cast_NumberObj (heap ?s2) a = Inr a"
    using assms(4,5) nn by (simp add: static_cast_NumberObj_def)
  have v1: "number_value (heap ?s2) a = Inr x"
    using assms(4,5) nn by (simp add: number_value_def deref_def)
  have v2: "number_value (heap ?s2) b = Inr y"
    using assms(6,7) nn by (simp add: number_value_def deref_def)
  have ex: "exec_instr inst s = Inr (Next ?s')"
    using assms(2) p1 p2 c1 c2 v1 v2 by (simp add: exec_instr_def new_obj_def push_def)
  from assms(1) have fresh: "heap s (brk s) = None" by (force simp: vm_inv_def)
  from assms(1) have untracked: "brk s \<notin> set (objects (gc s))" by (force simp: vm_inv_def)
  have "stack ?s' = st @ [brk s]" by simp
  moreover have "heap ?s' (brk s) = Some \<lparr>marked = False, body = NumberObj (x + y)\<rparr>" by simp
  moreover have "objects (gc ?s') = objects (gc s) @ [brk s]" by (simp add: track_def)
  moreover have "\<forall>q. q \<noteq> brk s \<longrightarrow> heap ?s' q = heap s q" by simp
  ultimately show ?thesis using ex fresh untracked by blast
qed

theorem add_pushes_tracked_sum_witness:
  "vm_inv vm_at_cycle \<and>
   (\<exists>s'. exec_instr \<lparr>code = OP_ADD, operand = AltDouble 0\<rparr> vm_at_cycle = Inr (Next s') \<and>
      stack s' = [5] \<and> heap vm_at_cycle 5 = None \<and>
      heap s' 5 = Some \<lparr>marked = False, body = NumberObj 32\<rparr> \<and>
      objects (gc s') = [1, 2, 3, 4, 5])"
proof -
  have "code \<lparr>code = OP_ADD, operand = AltDouble (0::real)\<rparr> = OP_ADD" by simp
  moreover have "stack vm_at_cycle = [] @ [3, 4]" by (simp add: vm_at_cycle_def)
  moreover have "heap vm_at_cycle 3 = Some \<lparr>marked = False, body = NumberObj 30\<rparr>"
    by (simp add: vm_at_cycle_def)
  moreover have "body \<lparr>marked = False, body = NumberObj (30::real)\<rparr> = NumberObj 30" by simp
  moreover have "heap vm_at_cycle 4 = Some \<lparr>marked = False, body = NumberObj 2\<rparr>"
    by (simp add: vm_at_cycle_def)
  moreover have "body \<lparr>marked = False, body = NumberObj (2::real)\<rparr> = NumberObj 2" by simp
  ultimately have "\<exists>s'. exec_instr \<lparr>code = OP_ADD, operand = AltDouble 0\<rparr> vm_at_cycle = Inr (Next s') \<and>
           stack s' = [] @ [brk vm_at_cycle] \<and>
           heap vm_at_cycle (brk vm_at_cycle) = None \<and> brk vm_at_cycle \<notin> set (objects (gc vm_at_cycle)) \<and>
           heap s' (brk vm_at_cycle) = Some \<lparr>marked = False, body = NumberObj (30 + 2)\<rparr> \<and>
           objects (gc s') = objects (gc vm_at_cycle) @ [brk vm_at_cycle] \<and>
           (\<forall>q. q \<noteq> brk vm_at_cycle \<longrightarrow> heap s' q = heap vm_at_cycle q)"
    by (rule add_pushes_tracked_sum [OF vm_inv_vm_at_cycle])
  moreover have "brk vm_at_cycle = 5" "objects (gc vm_at_cycle) = [1, 2, 3, 4]"
    by (simp_all add: vm_at_cycle_def)
  ultimately show ?thesis using vm_inv_vm_at_cycle by auto
qed

section \<open>The run loop\<close>
















section \<open>Loading a program\<close>

text \<open>
  C8, as the code has it. \<open>loadProgram\<close> replaces the loaded program by the given
  instruction sequence and leaves \<open>ip\<close>, the stack, the collector and the store as
  they were; \<open>ip\<close> is 0 after loading into a newly constructed machine.
\<close>

theorem loadProgram_keeps_ip:
  "bytecode (loadProgram program s) = program \<and>
   ip (loadProgram program s) = ip s \<and>
   stack (loadProgram program s) = stack s \<and>
   gc (loadProgram program s) = gc s \<and>
   heap (loadProgram program s) = heap s \<and>
   ip (loadProgram program (KryptonVM_init :: 'd KryptonVM)) = 0"
  by (simp add: loadProgram_def KryptonVM_init_def)

text \<open>
  \<open>ip\<close> is not reset: after \<open>main\<close>'s program has run to its \<open>HALT\<close> at
  index 8, loading a program leaves \<open>ip\<close> at 8.
\<close>

theorem loadProgram_resets_ip_counterexample:
  "map_sum id (ip \<circ> loadProgram main_program) (run (loadProgram main_program KryptonVM_init))
     = Inr 8"
  by (simp add: main_program_eq vm_defs run_loop.simps)

section \<open>Opcodes without a case\<close>

text \<open>
  C2, evaluated. \<open>SUB\<close>, \<open>MUL\<close> and \<open>DIV\<close> have no case in the \<open>switch\<close>,
  and neither have the two jumps: each leaves the machine as it is, so nothing is popped
  and nothing is pushed. The program of \<open>main\<close>, written for \<open>(10 + 20) * 2\<close>,
  prints the string and then 2, the operand its \<open>MUL\<close> left on top of the stack.
\<close>

theorem arithmetic_opcodes_fall_through:
  "exec_instr \<lparr>code = OP_SUB, operand = v\<rparr> s = Inr (Next s) \<and>
   exec_instr \<lparr>code = OP_MUL, operand = v\<rparr> s = Inr (Next s) \<and>
   exec_instr \<lparr>code = OP_DIV, operand = v\<rparr> s = Inr (Next s) \<and>
   exec_instr \<lparr>code = OP_JUMP, operand = v\<rparr> s = Inr (Next s) \<and>
   exec_instr \<lparr>code = OP_JUMP_IF_FALSE, operand = v\<rparr> s = Inr (Next s) \<and>
   map_sum id cout (run (loadProgram main_program KryptonVM_init)) =
     Inr [ExecutionStarted, CycleFinished, Printed (StringObj ''Hasil Kalkulasi: ''),
          Printed (NumberObj 2), VMHalted]"
proof -
  have "map_sum id cout (run (loadProgram main_program KryptonVM_init)) =
     Inr [ExecutionStarted, CycleFinished, Printed (StringObj ''Hasil Kalkulasi: ''),
          Printed (NumberObj 2), VMHalted]"
    by (simp add: main_program_eq vm_defs run_loop.simps)
  then show ?thesis by (simp add: exec_instr_def)
qed

text \<open>
  C7, evaluated. The program that pushes 1, pushes 0 and divides runs to its end without
  an error: \<open>ip\<close> is 3, the two operands are still on the stack, nothing was printed.
\<close>

theorem div_by_zero_runs_on:
  "map_sum id (\<lambda>s. (ip s, map (heap s) (stack s), cout s))
     (run (loadProgram
        (foldl (\<lambda>program e. e program) []
           [emit_double OP_PUSH_NUM 1, emit_double OP_PUSH_NUM 0, emit OP_DIV])
        (KryptonVM_init :: real KryptonVM))) =
   Inr (3,
        [Some \<lparr>marked = False, body = NumberObj 1\<rparr>, Some \<lparr>marked = False, body = NumberObj 0\<rparr>],
        [ExecutionStarted])"
  by (simp add: emit_def emit_double_def vm_defs run_loop.simps)

end
